theory Spec2Isabelle
  imports Main "HOL-Library.AList"
begin

section \<open>Strings\<close>

text \<open>
  A Python \<open>str\<close> is modelled as a \<open>string\<close>, each \<open>char\<close> standing for one code
  point below 256. \<open>str.strip()\<close> without an argument removes the characters for which
  \<open>str.isspace\<close> holds; below 256 these are U+0009 to U+000D, U+001C to U+0020, U+0085
  and U+00A0.
\<close>

definition whitespace :: "char list" where
  "whitespace =
     [CHR 0x09, CHR 0x0A, CHR 0x0B, CHR 0x0C, CHR 0x0D,
      CHR 0x1C, CHR 0x1D, CHR 0x1E, CHR 0x1F, CHR 0x20, CHR 0x85, CHR 0xA0]"

definition isspace :: "char \<Rightarrow> bool" where
  "isspace c = (c \<in> set whitespace)"

text \<open>\<open>s.lstrip(chars)\<close> drops the leading characters of \<open>s\<close> that occur in \<open>chars\<close>.\<close>

definition lstrip :: "string \<Rightarrow> string \<Rightarrow> string" where
  "lstrip chars s = dropWhile (\<lambda>c. c \<in> set chars) s"

definition rstrip :: "string \<Rightarrow> string \<Rightarrow> string" where
  "rstrip chars s = rev (dropWhile (\<lambda>c. c \<in> set chars) (rev s))"

text \<open>\<open>s.strip()\<close>: whitespace removed at both ends.\<close>

definition strip :: "string \<Rightarrow> string" where
  "strip s = rstrip whitespace (lstrip whitespace s)"

definition startswith :: "string \<Rightarrow> string \<Rightarrow> bool" where
  "startswith s p = (take (length p) s = p)"

section \<open>Query Builder\<close>

text \<open>
  \<open>GitHubRepoSearcher._build_ignore_query\<close>: the loop over \<open>self.ignore_patterns\<close>, the accumulator being
  the local \<open>ignore_query\<close>. \<open>continue\<close> leaves the accumulator as it is.
\<close>

fun build_ignore_loop :: "string \<Rightarrow> string list \<Rightarrow> string" where
  "build_ignore_loop ignore_query [] = ignore_query"
| "build_ignore_loop ignore_query (p # rest) =
     (let pattern = strip p in
      if pattern = [] then build_ignore_loop ignore_query rest
      else if startswith pattern ''*.'' \<or> startswith pattern ''.'' then
        (let ext = lstrip ''*.'' pattern
         in build_ignore_loop (ignore_query @ '' -extension:'' @ ext) rest)
      else if CHR ''.'' \<notin> set pattern \<and> \<not> startswith pattern ''/'' then
        build_ignore_loop (ignore_query @ '' -extension:'' @ pattern) rest
      else
        build_ignore_loop (ignore_query @ '' -path:'' @ pattern) rest)"

definition build_ignore_query :: "string list \<Rightarrow> string" where
  "build_ignore_query ignore_patterns = build_ignore_loop [] ignore_patterns"

section \<open>The remote platform and the effects of a run\<close>

text \<open>
  The exceptions the code tells apart: \<open>GithubException\<close> with its \<open>status\<close> and its
  rendering \<open>str(e)\<close>, and every other subclass of \<open>Exception\<close> with its rendering.
  (\<open>KeyboardInterrupt\<close> is no \<open>Exception\<close> and is not modelled.)
\<close>

datatype exn = GithubException int string | OtherException string

text \<open>A repository object, with the three attributes the code reads.\<close>

record repository =
  name :: string
  full_name :: string
  html_url :: string

text \<open>
  What a run does besides returning: the queries it sends to \<open>search_code\<close>, the calls of
  \<open>time.sleep\<close> (in seconds) and the lines it prints. A printed line is kept as the
  message and the values formatted into it, in the order of the f-string.
\<close>

datatype message =
    FoundRepositories int string
  | ErrorAccessingOrganization string string
  | RateLimitExceeded string
  | SearchNotAvailable string
  | ErrorSearching string string
  | UnexpectedError string string
  | SearchingRepository int int string
  | SearchingFor string
  | FoundIn string string
  | Completed string int
  | Separator

datatype event = Search string | Sleep int | Print message

text \<open>
  The world a run acts on: the state of the remote platform, of any type \<open>'r\<close>, and the
  events so far, oldest first. The remote search is a function of the platform's state
  and the query that gives the match count (\<open>totalCount\<close>) or the exception raised, and
  the platform's next state; so its answers may change from call to call.
\<close>

record 'r world =
  remote :: 'r
  events :: "event list"

type_synonym 'r search_code = "'r \<Rightarrow> string \<Rightarrow> (exn + int) \<times> 'r"

definition emit :: "event \<Rightarrow> 'r world \<Rightarrow> 'r world" where
  "emit e w = w\<lparr>events := events w @ [e]\<rparr>"

definition org_name :: string where
  "org_name = ''my-org''"

section \<open>Repository Enumerator\<close>

text \<open>
  \<open>get_organization_repos\<close>. The first argument is what
  \<open>list(self.github.get_organization(self.org_name).get_repos())\<close> does: it gives the
  repositories or raises. Only a \<open>GithubException\<close> is caught.
\<close>

definition get_organization_repos ::
  "exn + repository list \<Rightarrow> 'r world \<Rightarrow> (exn + repository list) \<times> 'r world" where
  "get_organization_repos listing w =
     (case listing of
        Inr repos \<Rightarrow> (Inr repos, emit (Print (FoundRepositories (int (length repos)) org_name)) w)
      | Inl (GithubException status e) \<Rightarrow>
          (Inr [], emit (Print (ErrorAccessingOrganization org_name e)) w)
      | Inl (OtherException e) \<Rightarrow> (Inl (OtherException e), w))"

section \<open>Per-Repository Search\<close>

definition dquote :: char where
  "dquote = CHR 0x22"

text \<open>
  \<open>search_string_in_repo\<close>. The query is the f-string of the source; the call of the
  remote search is recorded as a \<open>Search\<close> event. Every exception ends in
  \<open>return False\<close>.
\<close>

definition search_string_in_repo ::
  "'r search_code \<Rightarrow> string list \<Rightarrow> repository \<Rightarrow> string \<Rightarrow> 'r world \<Rightarrow> bool \<times> 'r world" where
  "search_string_in_repo search_code ignore_patterns repo search_string w =
     (let ignore_query = build_ignore_query ignore_patterns;
          query = [dquote] @ search_string @ [dquote] @ '' repo:'' @ full_name repo @ ignore_query;
          (search_results, r) = search_code (remote w) query;
          w1 = emit (Search query) (w\<lparr>remote := r\<rparr>)
      in case search_results of
           Inr totalCount \<Rightarrow> (totalCount > 0, w1)
         | Inl (GithubException status e) \<Rightarrow>
             if status = 403 then
               (False, emit (Sleep 60) (emit (Print (RateLimitExceeded (name repo))) w1))
             else if status = 422 then
               (False, emit (Print (SearchNotAvailable (name repo))) w1)
             else
               (False, emit (Print (ErrorSearching (name repo) e)) w1)
         | Inl (OtherException e) \<Rightarrow>
             (False, emit (Print (UnexpectedError (name repo) e)) w1))"

section \<open>Aggregator\<close>

text \<open>
  The inner loop of \<open>search_strings_in_repos\<close>, over the search strings for one
  repository; \<open>found_strings\<close> is the Python set being filled.
\<close>

fun search_strings_loop ::
  "'r search_code \<Rightarrow> string list \<Rightarrow> repository \<Rightarrow> string list \<Rightarrow> string set \<Rightarrow> 'r world
     \<Rightarrow> string set \<times> 'r world" where
  "search_strings_loop search_code ignore_patterns repo [] found_strings w = (found_strings, w)"
| "search_strings_loop search_code ignore_patterns repo (search_string # rest) found_strings w =
     (let w1 = emit (Print (SearchingFor search_string)) w;
          (hit, w2) = search_string_in_repo search_code ignore_patterns repo search_string w1;
          (found_strings', w3) =
             (if hit then
                (insert search_string found_strings,
                 emit (Print (FoundIn search_string (name repo))) w2)
              else (found_strings, w2));
          w4 = emit (Sleep 1) w3
      in search_strings_loop search_code ignore_patterns repo rest found_strings' w4)"

text \<open>
  The outer loop, over \<open>enumerate(repos, 1)\<close>; \<open>n\<close> is \<open>len(repos)\<close> and \<open>i\<close> the
  running index. The result dictionary is an association list in insertion order:
  \<open>results[k] = v\<close> replaces the value of a key that is present and appends a new key.
\<close>

fun search_repos_loop ::
  "'r search_code \<Rightarrow> string list \<Rightarrow> string list \<Rightarrow> int \<Rightarrow> int \<Rightarrow> repository list
     \<Rightarrow> (string \<times> string set) list \<Rightarrow> 'r world \<Rightarrow> (string \<times> string set) list \<times> 'r world" where
  "search_repos_loop search_code ignore_patterns search_strings n i [] results w = (results, w)"
| "search_repos_loop search_code ignore_patterns search_strings n i (repo # rest) results w =
     (let w1 = emit (Print (SearchingRepository i n (name repo))) w;
          (found_strings, w2) =
             search_strings_loop search_code ignore_patterns repo search_strings {} w1;
          results' =
             (if found_strings \<noteq> {} then AList.update (html_url repo) found_strings results
              else results);
          w3 = emit (Print (Completed (name repo) (int (card found_strings)))) w2;
          w4 = emit (Print Separator) w3
      in search_repos_loop search_code ignore_patterns search_strings n (i + 1) rest results' w4)"

text \<open>\<open>search_strings_in_repos\<close>; an exception of the enumerator propagates.\<close>

definition search_strings_in_repos ::
  "'r search_code \<Rightarrow> string list \<Rightarrow> exn + repository list \<Rightarrow> string list \<Rightarrow> 'r world
     \<Rightarrow> (exn + (string \<times> string set) list) \<times> 'r world" where
  "search_strings_in_repos search_code ignore_patterns listing search_strings w =
     (case get_organization_repos listing w of
        (Inl e, w1) \<Rightarrow> (Inl e, w1)
      | (Inr repos, w1) \<Rightarrow>
          if repos = [] then (Inr [], w1)
          else
            (let (results, w2) =
                   search_repos_loop search_code ignore_patterns search_strings
                     (int (length repos)) 1 repos [] w1
             in (Inr results, w2)))"

section \<open>Reporter: the summary by string\<close>

text \<open>
  The tally of \<open>example_usage.main\<close>. Its loops run over \<open>results.items()\<close> and over
  each set of found strings; the argument lists the items in the order the loops visit
  them, each set as the list of its elements in iteration order.
  \<open>string_counts.get(string, 0)\<close> is \<open>get0\<close>.
\<close>

definition get0 :: "(string \<rightharpoonup> int) \<Rightarrow> string \<Rightarrow> int" where
  "get0 string_counts s = (case string_counts s of None \<Rightarrow> 0 | Some c \<Rightarrow> c)"

fun count_found_strings :: "(string \<rightharpoonup> int) \<Rightarrow> string list \<Rightarrow> (string \<rightharpoonup> int)" where
  "count_found_strings string_counts [] = string_counts"
| "count_found_strings string_counts (s # rest) =
     count_found_strings (string_counts(s \<mapsto> get0 string_counts s + 1)) rest"

fun count_items :: "(string \<rightharpoonup> int) \<Rightarrow> (string \<times> string list) list \<Rightarrow> (string \<rightharpoonup> int)" where
  "count_items string_counts [] = string_counts"
| "count_items string_counts ((repo_url, found_strings) # rest) =
     count_items (count_found_strings string_counts found_strings) rest"

text \<open>The tally is computed only under \<open>if results:\<close>.\<close>

definition summary_by_string :: "(string \<times> string list) list \<Rightarrow> (string \<rightharpoonup> int) option" where
  "summary_by_string items =
     (if items \<noteq> [] then Some (count_items Map.empty items) else None)"

text \<open>
  \<open>iteration_of items results\<close>: \<open>items\<close> is one order in which the loops can visit the
  dictionary \<open>results\<close>: the keys in the dictionary's order, each set listed once per
  element.
\<close>

definition iteration_of ::
  "(string \<times> string list) list \<Rightarrow> (string \<times> string set) list \<Rightarrow> bool" where
  "iteration_of items results =
     list_all2 (\<lambda>(k, ss) (k', found). k = k' \<and> distinct ss \<and> set ss = found) items results"

section \<open>Observations on a run\<close>

text \<open>The queries sent to the remote search, read off the events in order.\<close>

fun searches :: "event list \<Rightarrow> string list" where
  "searches [] = []"
| "searches (Search q # es) = q # searches es"
| "searches (Sleep t # es) = searches es"
| "searches (Print m # es) = searches es"

text \<open>
  The set \<open>found_strings\<close> of each turn of the outer loop, with its repository: the
  outer loop of \<open>search_strings_in_repos\<close> without the dictionary.
\<close>

fun found_per_repo ::
  "'r search_code \<Rightarrow> string list \<Rightarrow> string list \<Rightarrow> int \<Rightarrow> int \<Rightarrow> repository list
     \<Rightarrow> 'r world \<Rightarrow> (repository \<times> string set) list" where
  "found_per_repo search_code ignore_patterns search_strings n i [] w = []"
| "found_per_repo search_code ignore_patterns search_strings n i (repo # rest) w =
     (let w1 = emit (Print (SearchingRepository i n (name repo))) w;
          (found_strings, w2) =
             search_strings_loop search_code ignore_patterns repo search_strings {} w1;
          w3 = emit (Print (Completed (name repo) (int (card found_strings)))) w2;
          w4 = emit (Print Separator) w3
      in (repo, found_strings)
           # found_per_repo search_code ignore_patterns search_strings n (i + 1) rest w4)"

text \<open>
  A remote platform whose state never changes: the outcome of a search is a fixed
  function of the query.
\<close>

definition unchanged_remote :: "(string \<Rightarrow> exn + int) \<Rightarrow> 'r search_code" where
  "unchanged_remote f r query = (f query, r)"

section \<open>Example inputs\<close>

definition repo_a :: repository where
  "repo_a = \<lparr>name = ''a'', full_name = ''my-org/a'', html_url = ''https://github.com/my-org/a''\<rparr>"

definition repo_b :: repository where
  "repo_b = \<lparr>name = ''b'', full_name = ''my-org/b'', html_url = ''https://github.com/my-org/b''\<rparr>"

text \<open>A platform that raises the same exception at every search, counting the calls.\<close>

definition failing_with :: "exn \<Rightarrow> nat search_code" where
  "failing_with e r query = (Inl e, r + 1)"

text \<open>A platform whose third answer is a rate limit; every other search has one match.\<close>

definition third_limited :: "nat search_code" where
  "third_limited r query =
     (if r = 2 then Inl (GithubException 403 ''rate limit'') else Inr 1, r + 1)"

text \<open>A platform on which only the first search has a match.\<close>

definition first_only :: "nat search_code" where
  "first_only r query = (Inr (if r = 0 then 1 else 0), r + 1)"

section \<open>Properties of the Query Builder\<close>

lemma build_ignore_loop_acc:
  "build_ignore_loop acc ps = acc @ build_ignore_loop [] ps"
proof (induction ps arbitrary: acc)
  case Nil
  show ?case by simp
next
  case (Cons p ps)
  have a: "build_ignore_loop (acc @ x) ps = acc @ build_ignore_loop ([] @ x) ps" for x
  proof -
    have "build_ignore_loop (acc @ x) ps = (acc @ x) @ build_ignore_loop [] ps"
      by (rule Cons.IH)
    moreover have "build_ignore_loop ([] @ x) ps = x @ build_ignore_loop [] ps"
      using Cons.IH [of x] by simp
    ultimately show ?thesis by simp
  qed
  show ?case
    unfolding build_ignore_loop.simps Let_def
    by (simp only: a Cons.IH [of acc] if_distrib [of "\<lambda>t. acc @ t"] cong: if_cong)
qed

lemma build_ignore_query_Nil: "build_ignore_query [] = []"
  by (simp add: build_ignore_query_def)

lemma build_ignore_query_Cons:
  "build_ignore_query (p # ps) = build_ignore_query [p] @ build_ignore_query ps"
proof -
  have "build_ignore_loop [] (p # ps) = build_ignore_loop (build_ignore_loop [] [p]) ps"
    by (simp add: Let_def)
  also have "\<dots> = build_ignore_loop [] [p] @ build_ignore_loop [] ps"
    by (rule build_ignore_loop_acc)
  finally show ?thesis
    by (simp only: build_ignore_query_def)
qed

text \<open>The clause of one pattern, branch by branch.\<close>

lemma build_ignore_query_single:
  "build_ignore_query [p] =
     (if strip p = [] then []
      else if startswith (strip p) ''*.'' \<or> startswith (strip p) ''.''
        then '' -extension:'' @ lstrip ''*.'' (strip p)
      else if CHR ''.'' \<notin> set (strip p) \<and> \<not> startswith (strip p) ''/''
        then '' -extension:'' @ strip p
      else '' -path:'' @ strip p)"
  by (simp add: build_ignore_query_def Let_def)

lemma dropWhile_all: "(\<forall>c\<in>set (dropWhile P s). P c) \<longleftrightarrow> (\<forall>c\<in>set s. P c)"
  by (induction s) auto

lemma strip_empty_iff: "strip s = [] \<longleftrightarrow> (\<forall>c\<in>set s. isspace c)"
proof -
  have "strip s = [] \<longleftrightarrow> (\<forall>c\<in>set (dropWhile isspace s). isspace c)"
    by (simp add: strip_def lstrip_def rstrip_def isspace_def [abs_def] dropWhile_eq_Nil_conv)
  then show ?thesis
    by (simp add: dropWhile_all)
qed

lemma strip_plain:
  assumes "s \<noteq> []" and "\<not> isspace (hd s)" and "\<not> isspace (last s)"
  shows "strip s = s"
proof -
  from assms have 1: "dropWhile (\<lambda>c. c \<in> set whitespace) s = s"
    by (cases s) (simp_all add: isspace_def)
  from assms have 2: "dropWhile (\<lambda>c. c \<in> set whitespace) (rev s) = rev s"
    by (cases "rev s") (simp_all add: isspace_def last_rev [symmetric] hd_rev)
  show ?thesis
    by (simp add: strip_def lstrip_def rstrip_def 1 2)
qed

text \<open>
  C1, as the spec has it, fails at its third example: \<open>src/generated\<close> has no dot and
  does not start with a slash, so the second test of the loop takes it for a bare
  extension.
\<close>

theorem build_ignore_query_examples_counterexample:
  "build_ignore_query [''src/generated''] = '' -extension:src/generated''
   \<and> build_ignore_query [''src/generated''] \<noteq> '' -path:src/generated''"
  by code_simp

text \<open>
  C1 (amended): applied to the single pattern \<open>md\<close> the Query Builder returns
  \<open> -extension:md\<close>, to \<open>.circleci\<close> it returns \<open> -extension:circleci\<close>, to
  \<open>*.json\<close> it returns \<open> -extension:json\<close>, and to \<open>src/generated\<close> it returns
  \<open> -extension:src/generated\<close>.
\<close>

theorem build_ignore_query_examples:
  "build_ignore_query [''md''] = '' -extension:md''
   \<and> build_ignore_query [''.circleci''] = '' -extension:circleci''
   \<and> build_ignore_query [''src/generated''] = '' -extension:src/generated''
   \<and> build_ignore_query [''*.json''] = '' -extension:json''"
  by code_simp

text \<open>
  C4: for every list of ignore patterns the output is the concatenation, in input order
  and with nothing dropped as a duplicate, of the clauses of the single patterns; a
  pattern that is empty after trimming (which is: empty or all whitespace) has the
  empty clause, and the clause of any other pattern is one space followed by
  \<open>-extension:\<close> or \<open>-path:\<close>.
\<close>

theorem build_ignore_query_concat:
  "build_ignore_query ps = concat (map (\<lambda>p. build_ignore_query [p]) ps)
   \<and> (strip p = [] \<longleftrightarrow> (\<forall>c\<in>set p. isspace c))
   \<and> (strip p = [] \<longrightarrow> build_ignore_query [p] = [])
   \<and> (strip p \<noteq> [] \<longrightarrow>
        (\<exists>rest. build_ignore_query [p] = '' -extension:'' @ rest
              \<or> build_ignore_query [p] = '' -path:'' @ rest))"
proof -
  have "build_ignore_query ps = concat (map (\<lambda>p. build_ignore_query [p]) ps)"
  proof (induction ps)
    case Nil
    show ?case by (simp add: build_ignore_query_Nil)
  next
    case (Cons q qs)
    then show ?case
      using build_ignore_query_Cons [of q qs] by simp
  qed
  moreover have "strip p = [] \<longrightarrow> build_ignore_query [p] = []"
    by (simp add: build_ignore_query_single)
  moreover have "strip p \<noteq> [] \<longrightarrow>
        (\<exists>rest. build_ignore_query [p] = '' -extension:'' @ rest
              \<or> build_ignore_query [p] = '' -path:'' @ rest)"
    unfolding build_ignore_query_single
    by (simp only: if_False if_True split: if_split) blast
  ultimately show ?thesis
    using strip_empty_iff [of p] by blast
qed

theorem build_ignore_query_concat_witness:
  "build_ignore_query [''md'', ''  '', ''a.b'', ''md'']
     = concat (map (\<lambda>p. build_ignore_query [p]) [''md'', ''  '', ''a.b'', ''md''])
   \<and> build_ignore_query [''md'', ''  '', ''a.b'', ''md'']
     = '' -extension:md -path:a.b -extension:md''
   \<and> strip ''  '' = [] \<and> build_ignore_query [''  ''] = []
   \<and> strip ''a.b'' \<noteq> []
   \<and> (\<exists>rest. build_ignore_query [''a.b''] = '' -extension:'' @ rest
              \<or> build_ignore_query [''a.b''] = '' -path:'' @ rest)"
proof -
  have a: "strip ''  '' = []"
    by code_simp
  have b: "strip ''a.b'' \<noteq> []"
    by code_simp
  have c: "build_ignore_query [''md'', ''  '', ''a.b'', ''md'']
      = '' -extension:md -path:a.b -extension:md''"
    by code_simp
  show ?thesis
    using build_ignore_query_concat [of "[''md'', ''  '', ''a.b'', ''md'']" "''  ''"]
      build_ignore_query_concat [of "[]" "''a.b''"] a b c
    by blast
qed

text \<open>
  C9, as stated, fails at the pattern \<open>*\<close>: it consists only of \<open>*\<close> and \<open>.\<close>, but it
  starts with neither \<open>*.\<close> nor \<open>.\<close>, so nothing is stripped from it.
\<close>

theorem star_dot_pattern_counterexample:
  "set ''*'' \<subseteq> {CHR ''*'', CHR ''.''}
   \<and> build_ignore_query [''*''] = '' -extension:*''
   \<and> build_ignore_query [''*''] \<noteq> '' -extension:''"
  by code_simp

text \<open>
  C9 (amended): for every non-empty ignore pattern that consists only of \<open>*\<close> and \<open>.\<close>
  characters and starts with \<open>*.\<close> or with \<open>.\<close>, the Query Builder does not skip the
  pattern but emits the clause \<open> -extension:\<close> with an empty extension name.
\<close>

theorem star_dot_pattern_empty_extension:
  assumes "p \<noteq> []" and "set p \<subseteq> {CHR ''*'', CHR ''.''}"
    and "startswith p ''*.'' \<or> startswith p ''.''"
  shows "build_ignore_query [p] = '' -extension:''"
proof -
  have ns: "\<not> isspace c" if "c \<in> set p" for c
    using that assms(2) by (auto simp: isspace_def whitespace_def)
  from assms(1) have "hd p \<in> set p" and "last p \<in> set p"
    by simp_all
  then have sp: "strip p = p"
    using assms(1) ns by (simp add: strip_plain)
  have ls: "lstrip ''*.'' p = []"
    using assms(2) by (auto simp: lstrip_def dropWhile_eq_Nil_conv)
  show ?thesis
    using assms(1,3) by (simp add: build_ignore_query_single sp ls)
qed

theorem star_dot_pattern_empty_extension_witness:
  "''*.'' \<noteq> [] \<and> set ''*.'' \<subseteq> {CHR ''*'', CHR ''.''}
   \<and> (startswith ''*.'' ''*.'' \<or> startswith ''*.'' ''.'')
   \<and> build_ignore_query [''*.''] = '' -extension:''
   \<and> build_ignore_query [''.''] = '' -extension:''
   \<and> build_ignore_query [''..''] = '' -extension:''"
proof -
  have a: "set ''*.'' \<subseteq> {CHR ''*'', CHR ''.''}" "set ''.'' \<subseteq> {CHR ''*'', CHR ''.''}"
    "set ''..'' \<subseteq> {CHR ''*'', CHR ''.''}"
    by simp_all
  have b: "startswith ''*.'' ''*.''" "startswith ''.'' ''.''" "startswith ''..'' ''.''"
    by (simp_all add: startswith_def)
  show ?thesis
    using star_dot_pattern_empty_extension [of "''*.''"]
      star_dot_pattern_empty_extension [of "''.''"]
      star_dot_pattern_empty_extension [of "''..''"] a b
    by simp
qed

section \<open>Properties of the Per-Repository Search\<close>

lemma searches_append: "searches (xs @ ys) = searches xs @ searches ys"
  by (induction xs rule: searches.induct) simp_all

text \<open>
  C2: when the remote search raises, the per-repository search returns \<open>False\<close>. On
  status 403 the events added are the one search, the log line and a sleep of 60
  seconds (no second search); on status 422 the one search and the log line, with no
  sleep; on any other status, and on any other exception, the one search and the log
  line.
\<close>

theorem search_string_in_repo_errors:
  fixes search_code :: "'r search_code" and ign :: "string list" and repo :: repository
    and s :: string
  defines "q \<equiv> [dquote] @ s @ [dquote] @ '' repo:'' @ full_name repo @ build_ignore_query ign"
  shows "(search_code (remote w) q = (Inl (GithubException 403 e), r) \<longrightarrow>
            search_string_in_repo search_code ign repo s w =
              (False, w\<lparr>remote := r,
                 events := events w @ [Search q, Print (RateLimitExceeded (name repo)), Sleep 60]\<rparr>))
       \<and> (search_code (remote w) q = (Inl (GithubException 422 e), r) \<longrightarrow>
            search_string_in_repo search_code ign repo s w =
              (False, w\<lparr>remote := r,
                 events := events w @ [Search q, Print (SearchNotAvailable (name repo))]\<rparr>))
       \<and> (search_code (remote w) q = (Inl (GithubException status e), r)
            \<and> status \<noteq> 403 \<and> status \<noteq> 422 \<longrightarrow>
            search_string_in_repo search_code ign repo s w =
              (False, w\<lparr>remote := r,
                 events := events w @ [Search q, Print (ErrorSearching (name repo) e)]\<rparr>))
       \<and> (search_code (remote w) q = (Inl (OtherException e), r) \<longrightarrow>
            search_string_in_repo search_code ign repo s w =
              (False, w\<lparr>remote := r,
                 events := events w @ [Search q, Print (UnexpectedError (name repo) e)]\<rparr>))"
  by (simp add: search_string_in_repo_def q_def emit_def Let_def)

theorem search_string_in_repo_errors_witness:
  "search_string_in_repo (failing_with (GithubException 403 ''limit'')) [''md''] repo_a ''x''
      \<lparr>remote = 0, events = []\<rparr> =
     (False, \<lparr>remote = 1, events =
        [Search (dquote # ''x'' @ dquote # '' repo:my-org/a -extension:md''),
         Print (RateLimitExceeded ''a''), Sleep 60]\<rparr>)
   \<and> search_string_in_repo (failing_with (GithubException 422 ''empty'')) [''md''] repo_a ''x''
      \<lparr>remote = 0, events = []\<rparr> =
     (False, \<lparr>remote = 1, events =
        [Search (dquote # ''x'' @ dquote # '' repo:my-org/a -extension:md''),
         Print (SearchNotAvailable ''a'')]\<rparr>)
   \<and> search_string_in_repo (failing_with (GithubException 500 ''server'')) [''md''] repo_a ''x''
      \<lparr>remote = 0, events = []\<rparr> =
     (False, \<lparr>remote = 1, events =
        [Search (dquote # ''x'' @ dquote # '' repo:my-org/a -extension:md''),
         Print (ErrorSearching ''a'' ''server'')]\<rparr>)
   \<and> search_string_in_repo (failing_with (OtherException ''timeout'')) [''md''] repo_a ''x''
      \<lparr>remote = 0, events = []\<rparr> =
     (False, \<lparr>remote = 1, events =
        [Search (dquote # ''x'' @ dquote # '' repo:my-org/a -extension:md''),
         Print (UnexpectedError ''a'' ''timeout'')]\<rparr>)"
proof -
  have q: "build_ignore_query [''md''] = '' -extension:md''"
    by code_simp
  note t = search_string_in_repo_errors [where ign = "[''md'']" and repo = repo_a and s = "''x''"
      and w = "\<lparr>remote = 0, events = []\<rparr>" and r = "1::nat"]
  show ?thesis
    using t [of "failing_with (GithubException 403 ''limit'')" "''limit''"]
      t [of "failing_with (GithubException 422 ''empty'')" "''empty''"]
      t [of "failing_with (GithubException 500 ''server'')" "''server''" 500]
      t [of "failing_with (OtherException ''timeout'')" "''timeout''"]
    by (simp add: failing_with_def repo_a_def q)
qed

text \<open>
  C5: the query sent to the remote search is the search string between two double
  quotes, a space, \<open>repo:\<close> and the repository's full name, then the clause of the
  Query Builder; the search string is copied as it is, whatever characters it has. It
  is the one search of the call, and the platform's next state is the one this query
  gives.
\<close>

theorem search_string_in_repo_query:
  "\<exists>outcome.
      events (snd (search_string_in_repo search_code ign repo s w)) =
        events w
          @ Search ([dquote] @ s @ [dquote] @ '' repo:'' @ full_name repo @ build_ignore_query ign)
          # outcome
      \<and> searches outcome = []
      \<and> remote (snd (search_string_in_repo search_code ign repo s w)) =
          snd (search_code (remote w)
                 ([dquote] @ s @ [dquote] @ '' repo:'' @ full_name repo @ build_ignore_query ign))"
  by (auto simp add: search_string_in_repo_def emit_def Let_def
      split: prod.splits sum.splits exn.splits)

lemma search_string_in_repo_searches:
  "searches (events (snd (search_string_in_repo search_code ign repo s w))) =
     searches (events w)
       @ [[dquote] @ s @ [dquote] @ '' repo:'' @ full_name repo @ build_ignore_query ign]"
  by (auto simp add: search_string_in_repo_def emit_def Let_def searches_append
      split: prod.splits sum.splits exn.splits)

section \<open>Properties of the inner loop\<close>

lemma search_strings_loop_append:
  "search_strings_loop search_code ign repo (xs @ ys) found w =
     (case search_strings_loop search_code ign repo xs found w of
        (found1, w1) \<Rightarrow> search_strings_loop search_code ign repo ys found1 w1)"
  by (induction xs arbitrary: found w) (simp_all add: Let_def split: prod.splits)

text \<open>Whatever the platform answers, every search string is searched once, in order.\<close>

lemma search_strings_loop_searches:
  "searches (events (snd (search_strings_loop search_code ign repo strings found w))) =
     searches (events w) @
       map (\<lambda>s. [dquote] @ s @ [dquote] @ '' repo:'' @ full_name repo @ build_ignore_query ign)
         strings"
proof (induction strings arbitrary: found w)
  case Nil
  show ?case by simp
next
  case (Cons s strings)
  let ?w1 = "emit (Print (SearchingFor s)) w"
  obtain hit w2 where h: "search_string_in_repo search_code ign repo s ?w1 = (hit, w2)"
    by (cases "search_string_in_repo search_code ign repo s ?w1")
  have w2: "searches (events w2) = searches (events w) @
      [[dquote] @ s @ [dquote] @ '' repo:'' @ full_name repo @ build_ignore_query ign]"
    using search_string_in_repo_searches [of search_code ign repo s ?w1] h
    by (simp add: emit_def searches_append)
  show ?case
    using h w2 by (simp add: Let_def Cons.IH emit_def searches_append)
qed

lemma search_strings_loop_rate_limited_step:
  fixes search_code :: "'r search_code"
  assumes "search_code (remote w)
             ([dquote] @ s @ [dquote] @ '' repo:'' @ full_name repo @ build_ignore_query ign)
           = (Inl (GithubException 403 e), r)"
  shows "search_strings_loop search_code ign repo (s # post) found w =
           search_strings_loop search_code ign repo post found
             (w\<lparr>remote := r,
                events := events w @
                  [Print (SearchingFor s),
                   Search ([dquote] @ s @ [dquote] @ '' repo:'' @ full_name repo
                             @ build_ignore_query ign),
                   Print (RateLimitExceeded (name repo)), Sleep 60, Sleep 1]\<rparr>)"
  using assms by (simp add: search_string_in_repo_def emit_def Let_def)

text \<open>
  C6: let the search strings of a repository be \<open>pre\<close>, then \<open>s\<close>, then \<open>post\<close>, and
  let the search for \<open>s\<close> hit a rate limit (status 403) in the world \<open>w1\<close> that the loop
  has reached after \<open>pre\<close>. Then the loop goes on with \<open>post\<close>, from the set of found
  strings it had before \<open>s\<close> (so \<open>s\<close> is not added) and after the events of the failed
  turn: the search, the log line, the cooldown of 60 seconds and the pacing delay.
  And the searches of the whole loop are those of all its strings, in order: the ones
  after \<open>s\<close> are all sent.
\<close>

theorem rate_limit_does_not_stop_the_loop:
  fixes search_code :: "'r search_code"
  assumes "search_strings_loop search_code ign repo pre found w = (found1, w1)"
    and "search_code (remote w1)
             ([dquote] @ s @ [dquote] @ '' repo:'' @ full_name repo @ build_ignore_query ign)
           = (Inl (GithubException 403 e), r)"
  shows "search_strings_loop search_code ign repo (pre @ s # post) found w =
           search_strings_loop search_code ign repo post found1
             (w1\<lparr>remote := r,
                events := events w1 @
                  [Print (SearchingFor s),
                   Search ([dquote] @ s @ [dquote] @ '' repo:'' @ full_name repo
                             @ build_ignore_query ign),
                   Print (RateLimitExceeded (name repo)), Sleep 60, Sleep 1]\<rparr>)
         \<and> searches (events (snd
               (search_strings_loop search_code ign repo (pre @ s # post) found w))) =
             searches (events w) @
               map (\<lambda>s. [dquote] @ s @ [dquote] @ '' repo:'' @ full_name repo
                          @ build_ignore_query ign)
                 (pre @ s # post)"
proof -
  have "search_strings_loop search_code ign repo (pre @ s # post) found w =
          search_strings_loop search_code ign repo (s # post) found1 w1"
    using assms(1) by (simp add: search_strings_loop_append)
  then show ?thesis
    using search_strings_loop_rate_limited_step [of search_code w1 s repo ign e r post found1]
      assms(2)
      search_strings_loop_searches [of search_code ign repo "pre @ s # post" found w]
    by simp
qed

text \<open>The scenario of the spec: a rate limit at the third of five searches.\<close>

lemma third_limited_first_two:
  "search_strings_loop third_limited [] repo_a [''s1'', ''s2''] {} \<lparr>remote = 0, events = []\<rparr> =
     ({''s1'', ''s2''},
      \<lparr>remote = 2,
       events = [Print (SearchingFor ''s1''), Search (dquote # ''s1'' @ dquote # '' repo:my-org/a''),
                 Print (FoundIn ''s1'' ''a''), Sleep 1,
                 Print (SearchingFor ''s2''), Search (dquote # ''s2'' @ dquote # '' repo:my-org/a''),
                 Print (FoundIn ''s2'' ''a''), Sleep 1]\<rparr>)"
  by (simp add: search_string_in_repo_def emit_def Let_def third_limited_def repo_a_def
      build_ignore_query_def insert_commute)

lemma third_limited_found:
  "fst (search_strings_loop third_limited [] repo_a [''s1'', ''s2'', ''s3'', ''s4'', ''s5''] {}
          \<lparr>remote = 0, events = []\<rparr>) = {''s1'', ''s2'', ''s4'', ''s5''}"
  by code_simp

theorem rate_limit_does_not_stop_the_loop_witness:
  "search_strings_loop third_limited [] repo_a ([''s1'', ''s2''] @ ''s3'' # [''s4'', ''s5'']) {}
       \<lparr>remote = 0, events = []\<rparr> =
     search_strings_loop third_limited [] repo_a [''s4'', ''s5''] {''s1'', ''s2''}
       \<lparr>remote = 3,
        events = [Print (SearchingFor ''s1''), Search (dquote # ''s1'' @ dquote # '' repo:my-org/a''),
                 Print (FoundIn ''s1'' ''a''), Sleep 1,
                 Print (SearchingFor ''s2''), Search (dquote # ''s2'' @ dquote # '' repo:my-org/a''),
                 Print (FoundIn ''s2'' ''a''), Sleep 1,
                 Print (SearchingFor ''s3''), Search (dquote # ''s3'' @ dquote # '' repo:my-org/a''),
                 Print (RateLimitExceeded ''a''), Sleep 60, Sleep 1]\<rparr>
   \<and> searches (events (snd (search_strings_loop third_limited [] repo_a
          ([''s1'', ''s2''] @ ''s3'' # [''s4'', ''s5'']) {} \<lparr>remote = 0, events = []\<rparr>))) =
       [dquote # ''s1'' @ dquote # '' repo:my-org/a'',
        dquote # ''s2'' @ dquote # '' repo:my-org/a'',
        dquote # ''s3'' @ dquote # '' repo:my-org/a'',
        dquote # ''s4'' @ dquote # '' repo:my-org/a'',
        dquote # ''s5'' @ dquote # '' repo:my-org/a'']
   \<and> fst (search_strings_loop third_limited [] repo_a [''s1'', ''s2'', ''s3'', ''s4'', ''s5''] {}
          \<lparr>remote = 0, events = []\<rparr>) = {''s1'', ''s2'', ''s4'', ''s5''}"
proof -
  have lim: "third_limited (remote \<lparr>remote = 2::nat, events = es\<rparr>)
      ([dquote] @ ''s3'' @ [dquote] @ '' repo:'' @ full_name repo_a @ build_ignore_query [])
     = (Inl (GithubException 403 ''rate limit''), 3)" for es
    by (simp add: third_limited_def)
  note t = rate_limit_does_not_stop_the_loop [OF third_limited_first_two lim, of "[''s4'', ''s5'']"]
  have e: "build_ignore_query [] = []" "full_name repo_a = ''my-org/a''" "name repo_a = ''a''"
    by (simp_all add: build_ignore_query_def repo_a_def)
  have c1: "search_strings_loop third_limited [] repo_a
       ([''s1'', ''s2''] @ ''s3'' # [''s4'', ''s5'']) {} \<lparr>remote = 0, events = []\<rparr> =
     search_strings_loop third_limited [] repo_a [''s4'', ''s5''] {''s1'', ''s2''}
       \<lparr>remote = 3,
        events = [Print (SearchingFor ''s1''), Search (dquote # ''s1'' @ dquote # '' repo:my-org/a''),
                 Print (FoundIn ''s1'' ''a''), Sleep 1,
                 Print (SearchingFor ''s2''), Search (dquote # ''s2'' @ dquote # '' repo:my-org/a''),
                 Print (FoundIn ''s2'' ''a''), Sleep 1,
                 Print (SearchingFor ''s3''), Search (dquote # ''s3'' @ dquote # '' repo:my-org/a''),
                 Print (RateLimitExceeded ''a''), Sleep 60, Sleep 1]\<rparr>"
    using t [THEN conjunct1] by (simp del: search_strings_loop.simps add: e)
  have c2: "searches (events (snd (search_strings_loop third_limited [] repo_a
          ([''s1'', ''s2''] @ ''s3'' # [''s4'', ''s5'']) {} \<lparr>remote = 0, events = []\<rparr>))) =
       [dquote # ''s1'' @ dquote # '' repo:my-org/a'',
        dquote # ''s2'' @ dquote # '' repo:my-org/a'',
        dquote # ''s3'' @ dquote # '' repo:my-org/a'',
        dquote # ''s4'' @ dquote # '' repo:my-org/a'',
        dquote # ''s5'' @ dquote # '' repo:my-org/a'']"
    using t [THEN conjunct2] by (simp del: search_strings_loop.simps add: e)
  show ?thesis
    by (rule conjI [OF c1 conjI [OF c2 third_limited_found]])
qed

lemma search_strings_loop_subset:
  "fst (search_strings_loop search_code ign repo strings found w) \<subseteq> found \<union> set strings"
proof (induction strings arbitrary: found w)
  case Nil
  show ?case by simp
next
  case (Cons s strings)
  obtain hit w2 where h:
    "search_string_in_repo search_code ign repo s (emit (Print (SearchingFor s)) w) = (hit, w2)"
    by (cases "search_string_in_repo search_code ign repo s (emit (Print (SearchingFor s)) w)")
  show ?case
  proof (cases hit)
    case True
    then show ?thesis
      using h Cons.IH [of "insert s found" "emit (Sleep 1) (emit (Print (FoundIn s (name repo))) w2)"]
      by (auto simp add: Let_def)
  next
    case False
    then show ?thesis
      using h Cons.IH [of found "emit (Sleep 1) w2"]
      by (auto simp add: Let_def)
  qed
qed

lemma set_update_subset: "set (AList.update k v al) \<subseteq> insert (k, v) (set al)"
  by (induction al) auto

section \<open>Properties of the Aggregator\<close>

text \<open>One turn of the outer loop, with the set found in it named.\<close>

lemma search_repos_loop_Cons:
  assumes "search_strings_loop search_code ign repo strings {}
             (emit (Print (SearchingRepository i n (name repo))) w) = (found, w2)"
  shows "search_repos_loop search_code ign strings n i (repo # rest) results w =
           search_repos_loop search_code ign strings n (i + 1) rest
             (if found \<noteq> {} then AList.update (html_url repo) found results else results)
             (emit (Print Separator) (emit (Print (Completed (name repo) (int (card found)))) w2))"
    and "found_per_repo search_code ign strings n i (repo # rest) w =
           (repo, found) # found_per_repo search_code ign strings n (i + 1) rest
             (emit (Print Separator) (emit (Print (Completed (name repo) (int (card found)))) w2))"
    and "found \<subseteq> set strings"
  using assms search_strings_loop_subset [of search_code ign repo strings "{}"
      "emit (Print (SearchingRepository i n (name repo))) w"]
  by (simp_all add: Let_def)

lemma search_repos_loop_values:
  assumes "\<forall>(k, found) \<in> set results. found \<noteq> {} \<and> found \<subseteq> set strings"
  shows "\<forall>(k, found) \<in> set (fst (search_repos_loop search_code ign strings n i repos results w)).
           found \<noteq> {} \<and> found \<subseteq> set strings"
  using assms
proof (induction repos arbitrary: i results w)
  case Nil
  then show ?case by simp
next
  case (Cons repo rest)
  obtain found w2 where f: "search_strings_loop search_code ign repo strings {}
             (emit (Print (SearchingRepository i n (name repo))) w) = (found, w2)"
    by (cases "search_strings_loop search_code ign repo strings {}
             (emit (Print (SearchingRepository i n (name repo))) w)")
  note step = search_repos_loop_Cons [OF f]
  let ?results = "if found \<noteq> {} then AList.update (html_url repo) found results else results"
  have "\<forall>(k, found) \<in> set ?results. found \<noteq> {} \<and> found \<subseteq> set strings"
    using Cons.prems step(3) set_update_subset [of "html_url repo" found results]
    by (auto split: if_splits)
  then show ?case
    unfolding step(1) by (rule Cons.IH)
qed

lemma search_repos_loop_keys:
  "fst ` set (fst (search_repos_loop search_code ign strings n i repos results w)) =
     fst ` set results \<union>
     {html_url repo | repo found.
        (repo, found) \<in> set (found_per_repo search_code ign strings n i repos w) \<and> found \<noteq> {}}"
proof (induction repos arbitrary: i results w)
  case Nil
  show ?case by simp
next
  case (Cons repo rest)
  obtain found w2 where f: "search_strings_loop search_code ign repo strings {}
             (emit (Print (SearchingRepository i n (name repo))) w) = (found, w2)"
    by (cases "search_strings_loop search_code ign repo strings {}
             (emit (Print (SearchingRepository i n (name repo))) w)")
  note step = search_repos_loop_Cons [OF f]
  show ?case
    unfolding step(1) step(2) Cons.IH
    by (auto simp add: dom_update)
qed

text \<open>The keys of the result stay distinct, as those of a dictionary are.\<close>

lemma search_repos_loop_distinct:
  assumes "distinct (map fst results)"
  shows "distinct (map fst (fst (search_repos_loop search_code ign strings n i repos results w)))"
  using assms
proof (induction repos arbitrary: i results w)
  case Nil
  then show ?case by simp
next
  case (Cons repo rest)
  obtain found w2 where f: "search_strings_loop search_code ign repo strings {}
             (emit (Print (SearchingRepository i n (name repo))) w) = (found, w2)"
    by (cases "search_strings_loop search_code ign repo strings {}
             (emit (Print (SearchingRepository i n (name repo))) w)")
  have "distinct (map fst
          (if found \<noteq> {} then AList.update (html_url repo) found results else results))"
    using Cons.prems by (simp add: distinct_update)
  then show ?case
    unfolding search_repos_loop_Cons(1) [OF f] by (rule Cons.IH)
qed

lemma first_only_run:
  "fst (search_strings_in_repos first_only [] (Inr [repo_a, repo_b]) [''x'', ''y'']
          \<lparr>remote = 0, events = []\<rparr>) = Inr [(''https://github.com/my-org/a'', {''x''})]"
  by code_simp

lemma first_only_listing:
  "get_organization_repos (Inr [repo_a, repo_b]) \<lparr>remote = 0::nat, events = []\<rparr> =
     (Inr [repo_a, repo_b], \<lparr>remote = 0, events = [Print (FoundRepositories 2 org_name)]\<rparr>)"
  by (simp add: get_organization_repos_def emit_def)

lemma first_only_found:
  "found_per_repo first_only [] [''x'', ''y''] 2 1 [repo_a, repo_b]
     \<lparr>remote = 0, events = [Print (FoundRepositories 2 org_name)]\<rparr> =
   [(repo_a, {''x''}), (repo_b, {})]"
  by code_simp

text \<open>
  C3: in a run that returns a mapping, a URL is a key of the mapping exactly if it is the
  URL of a listed repository whose set of found strings is not empty, and no key is
  bound to the empty set.
\<close>

theorem result_keys_are_the_matching_repositories:
  assumes "get_organization_repos listing w = (Inr repos, w1)"
    and "search_strings_in_repos search_code ign listing strings w = (Inr results, w2)"
  shows "(u \<in> fst ` set results \<longleftrightarrow>
            (\<exists>(repo, found) \<in> set (found_per_repo search_code ign strings
                                      (int (length repos)) 1 repos w1).
               html_url repo = u \<and> found \<noteq> {}))
         \<and> (\<forall>(k, found) \<in> set results. found \<noteq> {})"
proof (cases "repos = []")
  case True
  then show ?thesis
    using assms by (auto simp add: search_strings_in_repos_def)
next
  case False
  then have r: "results = fst (search_repos_loop search_code ign strings
                     (int (length repos)) 1 repos [] w1)"
    using assms by (auto simp add: search_strings_in_repos_def Let_def split: prod.splits)
  have "u \<in> fst ` set results \<longleftrightarrow>
            (\<exists>(repo, found) \<in> set (found_per_repo search_code ign strings
                                      (int (length repos)) 1 repos w1).
               html_url repo = u \<and> found \<noteq> {})"
    unfolding r search_repos_loop_keys by auto
  moreover have "\<forall>(k, found) \<in> set results. found \<noteq> {}"
    using search_repos_loop_values [of "[]" strings search_code ign "int (length repos)" 1 repos w1]
    unfolding r by auto
  ultimately show ?thesis by blast
qed

theorem result_keys_are_the_matching_repositories_witness:
  "fst (search_strings_in_repos first_only [] (Inr [repo_a, repo_b]) [''x'', ''y'']
          \<lparr>remote = 0, events = []\<rparr>) = Inr [(''https://github.com/my-org/a'', {''x''})]
   \<and> found_per_repo first_only [] [''x'', ''y''] 2 1 [repo_a, repo_b]
        \<lparr>remote = 0, events = [Print (FoundRepositories 2 org_name)]\<rparr> =
      [(repo_a, {''x''}), (repo_b, {})]
   \<and> html_url repo_b \<notin> fst ` set [(''https://github.com/my-org/a'', {''x''})]
   \<and> (\<exists>(repo, found) \<in> set (found_per_repo first_only [] [''x'', ''y''] 2 1 [repo_a, repo_b]
                               \<lparr>remote = 0, events = [Print (FoundRepositories 2 org_name)]\<rparr>).
          html_url repo = ''https://github.com/my-org/a'' \<and> found \<noteq> {})"
proof -
  let ?run = "search_strings_in_repos first_only [] (Inr [repo_a, repo_b]) [''x'', ''y'']
          \<lparr>remote = 0, events = []\<rparr>"
  have run: "?run = (Inr [(''https://github.com/my-org/a'', {''x''})], snd ?run)"
    using first_only_run by (simp add: prod_eq_iff)
  have len: "int (length [repo_a, repo_b]) = 2"
    by simp
  note t = result_keys_are_the_matching_repositories [OF first_only_listing run,
      of "''https://github.com/my-org/a''", unfolded len]
  have b: "html_url repo_b \<notin> fst ` set [(''https://github.com/my-org/a'', {''x''})]"
    by (simp add: repo_b_def)
  have c: "\<exists>(repo, found) \<in> set (found_per_repo first_only [] [''x'', ''y''] 2 1 [repo_a, repo_b]
                               \<lparr>remote = 0, events = [Print (FoundRepositories 2 org_name)]\<rparr>).
          html_url repo = ''https://github.com/my-org/a'' \<and> found \<noteq> {}"
    using t by (simp del: found_per_repo.simps)
  show ?thesis
    using first_only_run first_only_found b c by blast
qed

text \<open>
  C10: in a run that returns a mapping, every set in the mapping is a subset of the
  search strings given.
\<close>

theorem result_values_are_search_strings:
  assumes "search_strings_in_repos search_code ign listing strings w = (Inr results, w2)"
    and "(k, found) \<in> set results"
  shows "found \<subseteq> set strings"
proof -
  obtain rs w1 where g: "get_organization_repos listing w = (rs, w1)"
    by (cases "get_organization_repos listing w")
  show ?thesis
  proof (cases rs)
    case (Inl e)
    then show ?thesis
      using assms g by (simp add: search_strings_in_repos_def)
  next
    case (Inr repos)
    show ?thesis
    proof (cases "repos = []")
      case True
      then show ?thesis
        using assms g Inr by (simp add: search_strings_in_repos_def)
    next
      case False
      then have r: "results = fst (search_repos_loop search_code ign strings
                     (int (length repos)) 1 repos [] w1)"
        using assms g Inr
        by (auto simp add: search_strings_in_repos_def Let_def split: prod.splits)
      show ?thesis
        using search_repos_loop_values [of "[]" strings search_code ign "int (length repos)" 1 repos w1]
          assms(2)
        unfolding r by auto
    qed
  qed
qed

theorem result_values_are_search_strings_witness:
  "fst (search_strings_in_repos first_only [] (Inr [repo_a, repo_b]) [''x'', ''y'']
          \<lparr>remote = 0, events = []\<rparr>) = Inr [(''https://github.com/my-org/a'', {''x''})]
   \<and> {''x''} \<subseteq> set [''x'', ''y'']"
proof -
  let ?run = "search_strings_in_repos first_only [] (Inr [repo_a, repo_b]) [''x'', ''y'']
          \<lparr>remote = 0, events = []\<rparr>"
  have run: "?run = (Inr [(''https://github.com/my-org/a'', {''x''})], snd ?run)"
    using first_only_run by (simp add: prod_eq_iff)
  have "{''x''} \<subseteq> set [''x'', ''y'']"
    by (rule result_values_are_search_strings [OF run]) simp
  with first_only_run show ?thesis
    by blast
qed

section \<open>Idempotence\<close>

lemma search_string_in_repo_unchanged:
  "fst (search_string_in_repo (unchanged_remote f) ign repo s w) =
     fst (search_string_in_repo (unchanged_remote f) ign repo s w')"
  by (simp add: search_string_in_repo_def unchanged_remote_def Let_def
      split: sum.splits exn.splits)

lemma search_strings_loop_unchanged:
  "fst (search_strings_loop (unchanged_remote f) ign repo strings found w) =
     fst (search_strings_loop (unchanged_remote f) ign repo strings found w')"
proof (induction strings arbitrary: found w w')
  case Nil
  show ?case by simp
next
  case (Cons s strings)
  obtain hit w2 where h: "search_string_in_repo (unchanged_remote f) ign repo s
      (emit (Print (SearchingFor s)) w) = (hit, w2)"
    by (cases "search_string_in_repo (unchanged_remote f) ign repo s
      (emit (Print (SearchingFor s)) w)")
  obtain hit' w2' where h': "search_string_in_repo (unchanged_remote f) ign repo s
      (emit (Print (SearchingFor s)) w') = (hit', w2')"
    by (cases "search_string_in_repo (unchanged_remote f) ign repo s
      (emit (Print (SearchingFor s)) w')")
  have "hit = hit'"
    using h h' search_string_in_repo_unchanged [of f ign repo s
        "emit (Print (SearchingFor s)) w" "emit (Print (SearchingFor s)) w'"]
    by simp
  then show ?case
  proof (cases hit)
    case True
    with \<open>hit = hit'\<close> h h' show ?thesis
      using Cons.IH [of "insert s found"
          "emit (Sleep 1) (emit (Print (FoundIn s (name repo))) w2)"
          "emit (Sleep 1) (emit (Print (FoundIn s (name repo))) w2')"]
      by (simp add: Let_def)
  next
    case False
    with \<open>hit = hit'\<close> h h' show ?thesis
      using Cons.IH [of found "emit (Sleep 1) w2" "emit (Sleep 1) w2'"]
      by (simp add: Let_def)
  qed
qed

lemma search_repos_loop_unchanged:
  "fst (search_repos_loop (unchanged_remote f) ign strings n i repos results w) =
     fst (search_repos_loop (unchanged_remote f) ign strings n i repos results w')"
proof (induction repos arbitrary: i results w w')
  case Nil
  show ?case by simp
next
  case (Cons repo rest)
  obtain found w2 where f: "search_strings_loop (unchanged_remote f) ign repo strings {}
             (emit (Print (SearchingRepository i n (name repo))) w) = (found, w2)"
    by (cases "search_strings_loop (unchanged_remote f) ign repo strings {}
             (emit (Print (SearchingRepository i n (name repo))) w)")
  obtain found' w2' where f': "search_strings_loop (unchanged_remote f) ign repo strings {}
             (emit (Print (SearchingRepository i n (name repo))) w') = (found', w2')"
    by (cases "search_strings_loop (unchanged_remote f) ign repo strings {}
             (emit (Print (SearchingRepository i n (name repo))) w')")
  have "found = found'"
    using f f' search_strings_loop_unchanged [of f ign repo strings "{}"
        "emit (Print (SearchingRepository i n (name repo))) w"
        "emit (Print (SearchingRepository i n (name repo))) w'"]
    by simp
  then show ?case
    unfolding search_repos_loop_Cons(1) [OF f] search_repos_loop_Cons(1) [OF f']
    by (simp add: Cons.IH [of _ _ "emit (Print Separator)
           (emit (Print (Completed (name repo) (int (card found')))) w2)"
         "emit (Print Separator) (emit (Print (Completed (name repo) (int (card found')))) w2')"])
qed

lemma search_strings_in_repos_fst:
  "fst (search_strings_in_repos search_code ign listing strings w) =
     (case get_organization_repos listing w of
        (Inl e, w1) \<Rightarrow> Inl e
      | (Inr repos, w1) \<Rightarrow>
          Inr (if repos = [] then []
               else fst (search_repos_loop search_code ign strings
                           (int (length repos)) 1 repos [] w1)))"
  by (simp add: search_strings_in_repos_def Let_def split: prod.splits sum.splits)

lemma search_strings_in_repos_unchanged:
  "fst (search_strings_in_repos (unchanged_remote f) ign listing strings w) =
     fst (search_strings_in_repos (unchanged_remote f) ign listing strings w')"
proof (cases listing)
  case (Inl e)
  then show ?thesis
    by (cases e) (simp_all add: search_strings_in_repos_fst get_organization_repos_def)
next
  case (Inr repos)
  then show ?thesis
    using search_repos_loop_unchanged [of f ign strings "int (length repos)" 1 repos "[]"
        "emit (Print (FoundRepositories (int (length repos)) org_name)) w"
        "emit (Print (FoundRepositories (int (length repos)) org_name)) w'"]
    by (simp add: search_strings_in_repos_fst get_organization_repos_def)
qed

text \<open>
  C8: on a platform whose answers are a fixed function of the query, a second run, from
  the world the first run has left, gives the same result as the first.
\<close>

theorem search_twice_same_mapping:
  "fst (search_strings_in_repos (unchanged_remote f) ign listing strings
          (snd (search_strings_in_repos (unchanged_remote f) ign listing strings w))) =
   fst (search_strings_in_repos (unchanged_remote f) ign listing strings w)"
  by (rule search_strings_in_repos_unchanged)

section \<open>Properties of the Reporter\<close>

lemma get0_upd: "get0 (m(s \<mapsto> c)) s' = (if s' = s then c else get0 m s')"
  by (simp add: get0_def)

lemma count_found_strings_at:
  "distinct ss \<Longrightarrow>
   count_found_strings m ss s = (if s \<in> set ss then Some (get0 m s + 1) else m s)"
proof (induction ss arbitrary: m)
  case Nil
  show ?case by simp
next
  case (Cons x xs)
  then show ?case
    by (auto simp add: get0_upd)
qed

lemma get0_count_found_strings:
  "distinct ss \<Longrightarrow>
   get0 (count_found_strings m ss) s = get0 m s + (if s \<in> set ss then 1 else 0)"
  by (simp add: count_found_strings_at get0_def)

text \<open>How many of the items list \<open>s\<close>.\<close>

lemma count_items_at:
  assumes "\<forall>(k, ss) \<in> set items. distinct ss"
  shows "count_items m items s =
           (if \<exists>(k, ss) \<in> set items. s \<in> set ss
            then Some (get0 m s + int (length (filter (\<lambda>(k, ss). s \<in> set ss) items)))
            else m s)"
  using assms
proof (induction items arbitrary: m)
  case Nil
  show ?case by simp
next
  case (Cons item items)
  obtain k ss where item: "item = (k, ss)"
    by (cases item)
  from Cons.prems item have d: "distinct ss" and ds: "\<forall>(k, ss) \<in> set items. distinct ss"
    by simp_all
  show ?case
    unfolding item count_items.simps Cons.IH [OF ds]
    using d by (auto simp add: count_found_strings_at get0_count_found_strings get0_def)
qed

lemma iteration_of_filter:
  assumes "iteration_of items results"
  shows "length (filter (\<lambda>(k, ss). s \<in> set ss) items) =
           length (filter (\<lambda>(k, found). s \<in> found) results)"
    and "(\<exists>(k, ss) \<in> set items. s \<in> set ss) \<longleftrightarrow> (\<exists>(k, found) \<in> set results. s \<in> found)"
    and "\<forall>(k, ss) \<in> set items. distinct ss"
    and "items = [] \<longleftrightarrow> results = []"
  using assms unfolding iteration_of_def
  by (induction items results rule: list_all2_induct) auto

lemma keys_containing_card:
  assumes "distinct (map fst results)"
  shows "card {k. \<exists>found. (k, found) \<in> set results \<and> s \<in> found} =
           length (filter (\<lambda>(k, found). s \<in> found) results)"
proof -
  have "{k. \<exists>found. (k, found) \<in> set results \<and> s \<in> found} =
          set (map fst (filter (\<lambda>(k, found). s \<in> found) results))"
    by force
  moreover have "distinct (map fst (filter (\<lambda>(k, found). s \<in> found) results))"
    using assms by (rule distinct_map_filter)
  ultimately show ?thesis
    using distinct_card [of "map fst (filter (\<lambda>(k, found). s \<in> found) results)"]
    by (simp only: length_map)
qed

lemma example_tally:
  "summary_by_string [(''repoA'', [''x'']), (''repoB'', [''x'', ''y''])] =
     Some [''x'' \<mapsto> 2, ''y'' \<mapsto> 1]"
  by (auto simp add: summary_by_string_def get0_def fun_eq_iff)

lemma example_tally_other_order:
  "summary_by_string [(''repoA'', [''x'']), (''repoB'', [''y'', ''x''])] =
     Some [''x'' \<mapsto> 2, ''y'' \<mapsto> 1]"
  by (auto simp add: summary_by_string_def get0_def fun_eq_iff)

text \<open>
  C7: for a result mapping that is not empty, visited in any order the dictionary and
  its sets allow, the tally read with \<open>get(s, 0)\<close> gives each string the number of keys
  whose set contains the string; a string in no set has no entry. From the mapping
  \<open>{"repoA": {"x"}, "repoB": {"x", "y"}}\<close> the tally is \<open>{"x": 2, "y": 1}\<close>.
\<close>

theorem summary_counts_repositories:
  assumes "iteration_of items results" and "distinct (map fst results)" and "results \<noteq> []"
  shows "\<exists>string_counts. summary_by_string items = Some string_counts
           \<and> (\<forall>s. get0 string_counts s =
                      int (card {k. \<exists>found. (k, found) \<in> set results \<and> s \<in> found}))
           \<and> (\<forall>s. string_counts s =
                 (let n = card {k. \<exists>found. (k, found) \<in> set results \<and> s \<in> found}
                  in if n = 0 then None else Some (int n)))"
proof -
  note it = iteration_of_filter [OF assms(1)]
  have ne: "items \<noteq> []"
    using it(4) assms(3) by simp
  have "count_items Map.empty items s =
          (let n = card {k. \<exists>found. (k, found) \<in> set results \<and> s \<in> found}
           in if n = 0 then None else Some (int n))" for s
  proof -
    have "(\<exists>(k, found) \<in> set results. s \<in> found) \<longleftrightarrow>
            filter (\<lambda>(k, found). s \<in> found) results \<noteq> []"
      by (auto simp add: filter_empty_conv)
    then show ?thesis
      unfolding count_items_at [OF it(3)] it(1) it(2) keys_containing_card [OF assms(2)]
      by (simp add: get0_def Let_def)
  qed
  then show ?thesis
    using ne by (simp add: summary_by_string_def get0_def Let_def)
qed

theorem summary_counts_repositories_witness:
  "iteration_of [(''repoA'', [''x'']), (''repoB'', [''x'', ''y''])]
                [(''repoA'', {''x''}), (''repoB'', {''x'', ''y''})]
   \<and> summary_by_string [(''repoA'', [''x'']), (''repoB'', [''x'', ''y''])] =
       Some [''x'' \<mapsto> 2, ''y'' \<mapsto> 1]
   \<and> card {k. \<exists>found. (k, found) \<in> set [(''repoA'', {''x''}), (''repoB'', {''x'', ''y''})]
                       \<and> ''x'' \<in> found} = 2
   \<and> card {k. \<exists>found. (k, found) \<in> set [(''repoA'', {''x''}), (''repoB'', {''x'', ''y''})]
                       \<and> ''y'' \<in> found} = 1"
proof -
  let ?results = "[(''repoA'', {''x''}), (''repoB'', {''x'', ''y''})]"
  have i: "iteration_of [(''repoA'', [''x'']), (''repoB'', [''x'', ''y''])] ?results"
    by (simp add: iteration_of_def)
  have d: "distinct (map fst ?results)" and n: "?results \<noteq> []"
    by simp_all
  from summary_counts_repositories [OF i d n] example_tally
  have t: "[''x'' \<mapsto> 2::int, ''y'' \<mapsto> 1] s =
            (let n = card {k. \<exists>found. (k, found) \<in> set ?results \<and> s \<in> found}
             in if n = 0 then None else Some (int n))" for s
    by auto
  have "card {k. \<exists>found. (k, found) \<in> set ?results \<and> ''x'' \<in> found} = 2"
    using t [of "''x''"] by (simp add: Let_def split: if_splits)
  moreover have "card {k. \<exists>found. (k, found) \<in> set ?results \<and> ''y'' \<in> found} = 1"
    using t [of "''y''"] by (simp add: Let_def split: if_splits)
  ultimately show ?thesis
    using i example_tally by blast
qed

end
